theory Spec2Isabelle
  imports Main "HOL-Library.Word" "HOL-Library.Char_ord" "HOL-Library.List_Lexorder"
    "HOL-Library.Multiset"
begin

section \<open>The filing system of cmd/mountlib/fs.go\<close>

subsection \<open>Data model\<close>

text \<open>
  A Go pointer is either nil or the address of an object; \<open>None\<close> stands for nil.
\<close>

type_synonym 'a ptr = "'a option"

text \<open>
  The interface \<open>Node\<close> is implemented by \<open>*Dir\<close> and \<open>*File\<close>. A value of the interface
  is nil (\<open>None\<close>) or a pointer tagged with its dynamic type; the type assertion
  \<open>node.(*Dir)\<close> succeeds exactly on the values \<open>Some (Dir d)\<close>.
\<close>

datatype ('d, 'f) Node = Dir "'d ptr" | File "'f ptr"

text \<open>
  Modelled from the spec: the error value \<open>ENOENT\<close> is declared outside fs.go. It is a
  non-nil error distinct from the errors a backend reports. A Go \<open>error\<close> result is nil
  (\<open>None\<close>) or an error value.
\<close>

datatype 'e error = ENOENT | BackendError 'e

text \<open>The two results \<open>(node Node, err error)\<close> of a lookup.\<close>

type_synonym ('d, 'f, 'e) result = "('d, 'f) Node option \<times> 'e error option"

text \<open>
  \<open>Dir.Lookup\<close> is declared outside fs.go. It is a parameter of the model: a function of
  the receiver, the name and the state of the world (directory caches, backend, clock)
  that returns its two results and the new state.
\<close>

type_synonym ('d, 'f, 'e, 's) dir_lookup =
  "'d ptr \<Rightarrow> string \<Rightarrow> 's \<Rightarrow> ('d, 'f, 'e) result \<times> 's"

text \<open>
  The optional backend feature \<open>DirChangeNotify\<close>: nil, or a function that takes the
  callback and the poll interval and acts on the world. A \<open>time.Duration\<close> is a signed
  count of nanoseconds; fs.go only compares it with zero and passes it on.
\<close>

record ('cb, 's) Features =
  DirChangeNotify :: "('cb \<Rightarrow> int \<Rightarrow> 's \<Rightarrow> 's) option"

text \<open>Of the backend \<open>fs.Fs\<close>, fs.go uses the method \<open>Features()\<close> only.\<close>

record ('cb, 's) Fs =
  Features :: "('cb, 's) Features"

record ('cb, 's, 'd) FS =
  f :: "('cb, 's) Fs"
  root :: "'d ptr"
  noSeek :: bool
  noChecksum :: bool
  readOnly :: bool
  noModTime :: bool
  dirCacheTime :: int

subsection \<open>Path resolution\<close>

text \<open>
  \<open>strings.IndexRune(s, r)\<close> for an ASCII rune: the index of the first byte equal to \<open>r\<close>,
  or -1 when there is none.
\<close>

fun IndexRune :: "string \<Rightarrow> char \<Rightarrow> int" where
  "IndexRune [] r = -1"
| "IndexRune (c # cs) r =
     (if c = r then 0
      else (let i = IndexRune cs r in if i < 0 then -1 else i + 1))"

text \<open>
  The loop of \<open>FS.Lookup\<close>: it cuts the first segment off \<open>path\<close>, skips it when empty,
  and otherwise looks it up in the current node, which has to be a directory.
\<close>

function Lookup_loop ::
  "('d, 'f, 'e, 's) dir_lookup \<Rightarrow> ('d, 'f) Node option \<Rightarrow> string \<Rightarrow> 's \<Rightarrow>
     ('d, 'f, 'e) result \<times> 's" where
  "Lookup_loop L node path s =
     (if path = [] then ((node, None), s)
      else
        (let i = IndexRune path (CHR ''/'');
             name = (if i < 0 then path else take (nat i) path);
             path' = (if i < 0 then [] else drop (nat (i + 1)) path)
         in if name = [] then Lookup_loop L node path' s
            else
              (case node of
                 Some (Dir dir) \<Rightarrow>
                   (case L dir name s of
                      ((node', Some err), s') \<Rightarrow> ((None, Some err), s')
                    | ((node', None), s') \<Rightarrow> Lookup_loop L node' path' s')
               | _ \<Rightarrow> ((None, Some ENOENT), s))))"
  by pat_completeness auto
termination
  by (relation "measure (\<lambda>(L, node, path, s). length path)") auto

text \<open>
  \<open>FS.Lookup\<close> reads the field \<open>root\<close> only, so the world its \<open>Dir.Lookup\<close> acts on need
  not be the world of the backend's features.
\<close>

definition Lookup ::
  "('d, 'f, 'e, 's) dir_lookup \<Rightarrow> ('cb, 'w, 'd) FS \<Rightarrow> string \<Rightarrow> 's \<Rightarrow>
     ('d, 'f, 'e) result \<times> 's" where
  "Lookup L fsys path s = Lookup_loop L (Some (Dir (root fsys))) path s"

declare Lookup_loop.simps [simp del]

text \<open>
  The algorithm in the words of the specification: split the path on \<open>/\<close> into ordered
  segments, skip the empty ones, and resolve the remaining segments one by one.
  \<open>split_slash\<close> is \<open>strings.Split(path, "/")\<close>.
\<close>

fun split_slash :: "string \<Rightarrow> string list" where
  "split_slash [] = [[]]"
| "split_slash (c # cs) =
     (if c = CHR ''/'' then [] # split_slash cs
      else (case split_slash cs of
              seg # segs \<Rightarrow> (c # seg) # segs
            | [] \<Rightarrow> [[c]]))"

definition segments :: "string \<Rightarrow> string list" where
  "segments path = filter (\<lambda>seg. seg \<noteq> []) (split_slash path)"

text \<open>
  For each segment, require the current node to be a directory, failing with
  \<open>ENOENT\<close> when it is not; otherwise call that directory's \<open>Lookup\<close>, hand its error on
  and stop at the first failure.
\<close>

fun resolve ::
  "('d, 'f, 'e, 's) dir_lookup \<Rightarrow> ('d, 'f) Node option \<Rightarrow> string list \<Rightarrow> 's \<Rightarrow>
     ('d, 'f, 'e) result \<times> 's" where
  "resolve L node [] s = ((node, None), s)"
| "resolve L (Some (Dir dir)) (seg # segs) s =
     (case L dir seg s of
        ((node', Some err), s') \<Rightarrow> ((None, Some err), s')
      | ((node', None), s') \<Rightarrow> resolve L node' segs s')"
| "resolve L node (seg # segs) s = ((None, Some ENOENT), s)"

text \<open>The path made of the given segments, separated by single slashes.\<close>

fun join_slash :: "string list \<Rightarrow> string" where
  "join_slash [] = []"
| "join_slash [seg] = seg"
| "join_slash (seg # segs) = seg @ CHR ''/'' # join_slash segs"

text \<open>
  Resolving a path by hand: a caller starts from the root \<open>Dir\<close> and calls \<open>Dir.Lookup\<close> on
  each segment in order, each call on the directory the call before it returned. The
  chain ends at the first call that returns an error, with the two results of that call.
  It cannot be carried out (\<open>None\<close>) when a call that is not the last returns something
  that is not a \<open>*Dir\<close>, since \<open>Dir.Lookup\<close> has no receiver then.
\<close>

fun sequential_Dir_Lookup ::
  "('d, 'f, 'e, 's) dir_lookup \<Rightarrow> 'd ptr \<Rightarrow> string list \<Rightarrow> 's \<Rightarrow>
     (('d, 'f, 'e) result \<times> 's) option" where
  "sequential_Dir_Lookup L dir [] s = Some ((Some (Dir dir), None), s)"
| "sequential_Dir_Lookup L dir [seg] s = Some (L dir seg s)"
| "sequential_Dir_Lookup L dir (seg # segs) s =
     (case L dir seg s of
        ((node, err), s') \<Rightarrow>
          (case err of
             Some e \<Rightarrow> Some ((node, err), s')
           | None \<Rightarrow>
               (case node of
                  Some (Dir dir') \<Rightarrow> sequential_Dir_Lookup L dir' segs s'
                | _ \<Rightarrow> None)))"

text \<open>
  Modelled from the spec: \<open>Dir.Lookup\<close> returns the child node, or fails with an error
  (section 4.3). In Go's two results exactly one is nil.
\<close>

definition Dir_Lookup_contract :: "('d, 'f, 'e, 's) dir_lookup \<Rightarrow> bool" where
  "Dir_Lookup_contract L =
     (\<forall>dir name s. (fst (fst (L dir name s)) = None) = (snd (fst (L dir name s)) \<noteq> None))"

text \<open>
  To observe which calls of \<open>Dir.Lookup\<close> a resolution performs, the world is paired with
  a log, and every call appends its receiver and its argument to the log.
\<close>

definition traced ::
  "('d, 'f, 'e, 's) dir_lookup \<Rightarrow> ('d, 'f, 'e, 's \<times> ('d ptr \<times> string) list) dir_lookup" where
  "traced L dir name = (\<lambda>(s, calls).
     (case L dir name s of (r, s') \<Rightarrow> (r, (s', calls @ [(dir, name)]))))"

text \<open>The first segment of a non-empty path and what the loop keeps of the path.\<close>

definition first_seg :: "string \<Rightarrow> string" where
  "first_seg path = takeWhile (\<lambda>c. c \<noteq> CHR ''/'') path"

definition after_seg :: "string \<Rightarrow> string" where
  "after_seg path = tl (dropWhile (\<lambda>c. c \<noteq> CHR ''/'') path)"

subsection \<open>The root, the statistics stub and change notification\<close>

definition Root :: "('cb, 's, 'd) FS \<Rightarrow> 'd ptr \<times> 'e error option" where
  "Root fsys = (root fsys, None)"

text \<open>\<open>Statfs\<close> has an empty body but for \<open>return nil\<close>: the world is left as it is.\<close>

definition Statfs :: "('cb, 's, 'd) FS \<Rightarrow> 's \<Rightarrow> 'e error option \<times> 's" where
  "Statfs fsys s = (None, s)"

text \<open>
  \<open>Dir.ForgetPath\<close> is declared outside fs.go; the method value \<open>fsys.root.ForgetPath\<close>
  is the callback \<open>ForgetPath (root fsys)\<close>.
\<close>

definition PollChanges ::
  "('d ptr \<Rightarrow> 'cb) \<Rightarrow> ('cb, 's, 'd) FS \<Rightarrow> int \<Rightarrow> 's \<Rightarrow> ('cb, 's, 'd) FS \<times> 's" where
  "PollChanges ForgetPath fsys pollInterval s =
     (let doDirChangeNotify = DirChangeNotify (Features (f fsys))
      in case doDirChangeNotify of
           Some notify \<Rightarrow> (fsys, notify (ForgetPath (root fsys)) pollInterval s)
         | None \<Rightarrow> (fsys, s))"

text \<open>Successive calls of \<open>PollChanges\<close>, one for each poll interval of the list.\<close>

fun PollChanges_calls ::
  "('d ptr \<Rightarrow> 'cb) \<Rightarrow> ('cb, 's, 'd) FS \<Rightarrow> int list \<Rightarrow> 's \<Rightarrow> ('cb, 's, 'd) FS \<times> 's" where
  "PollChanges_calls ForgetPath fsys [] s = (fsys, s)"
| "PollChanges_calls ForgetPath fsys (pollInterval # rest) s =
     (case PollChanges ForgetPath fsys pollInterval s of
        (fsys', s') \<Rightarrow> PollChanges_calls ForgetPath fsys' rest s')"

text \<open>
  The package-level settings read by \<open>NewFS\<close>, declared outside fs.go.
\<close>

record globals =
  NoSeek :: bool
  NoChecksum :: bool
  ReadOnly :: bool
  NoModTime :: bool
  DirCacheTime :: int
  PollInterval :: int

text \<open>
  \<open>NewFS\<close>. The clock \<open>time.Now\<close>, the constructor \<open>fs.NewDir\<close> of a directory entry and the
  constructor \<open>newDir\<close> of a directory node are declared outside fs.go and are parameters.
  \<open>newDir\<close> receives the filing system as built so far, whose root is still nil. The
  result of \<open>PollChanges\<close> is dropped; its effect on the world stays.
\<close>

definition NewFS ::
  "('s \<Rightarrow> 't) \<Rightarrow> (string \<Rightarrow> 't \<Rightarrow> 'de) \<Rightarrow>
   (('cb, 's, 'd) FS \<Rightarrow> ('cb, 's) Fs \<Rightarrow> 'd ptr \<Rightarrow> 'de \<Rightarrow> 's \<Rightarrow> 'd ptr \<times> 's) \<Rightarrow>
   ('d ptr \<Rightarrow> 'cb) \<Rightarrow> globals \<Rightarrow> ('cb, 's) Fs \<Rightarrow> 's \<Rightarrow> ('cb, 's, 'd) FS \<times> 's" where
  "NewFS time_Now fs_NewDir newDir ForgetPath g backend s =
     (let fsDir = fs_NewDir [] (time_Now s);
          fsys = \<lparr>f = backend, root = None, noSeek = False, noChecksum = False,
                   readOnly = False, noModTime = False, dirCacheTime = 0\<rparr>;
          fsys = (if NoSeek g then fsys\<lparr>noSeek := True\<rparr> else fsys);
          fsys = (if NoChecksum g then fsys\<lparr>noChecksum := True\<rparr> else fsys);
          fsys = (if ReadOnly g then fsys\<lparr>readOnly := True\<rparr> else fsys);
          fsys = (if NoModTime g then fsys\<lparr>noModTime := True\<rparr> else fsys);
          fsys = fsys\<lparr>dirCacheTime := DirCacheTime g\<rparr>;
          (dir, s') = newDir fsys backend None fsDir s;
          fsys = fsys\<lparr>root := dir\<rparr>
      in if PollInterval g > 0
         then (case PollChanges ForgetPath fsys (PollInterval g) s' of (_, s'') \<Rightarrow> (fsys, s''))
         else (fsys, s'))"

subsection \<open>Inode numbers\<close>

type_synonym uint64 = "64 word"

text \<open>
  \<open>atomic.AddUint64(&inodeCount, 1)\<close> adds one to the counter, wrapping around at
  \<open>2 ^ 64\<close>, and returns the new value. The function takes the counter and returns the
  inode number and the new counter; atomic additions take effect one after another.
\<close>

definition NewInode :: "uint64 \<Rightarrow> uint64 \<times> uint64" where
  "NewInode inodeCount = (inodeCount + 1, inodeCount + 1)"

text \<open>The values returned by \<open>n\<close> successive calls, in order, and the counter after them.\<close>

fun NewInode_calls :: "nat \<Rightarrow> uint64 \<Rightarrow> uint64 list \<times> uint64" where
  "NewInode_calls 0 inodeCount = ([], inodeCount)"
| "NewInode_calls (Suc n) inodeCount =
     (case NewInode inodeCount of
        (inode, inodeCount') \<Rightarrow>
          (case NewInode_calls n inodeCount' of
             (inodes, inodeCount'') \<Rightarrow> (inode # inodes, inodeCount'')))"

subsection \<open>The ordering of Nodes\<close>






subsection \<open>A small tree for concrete runs\<close>

text \<open>
  The root directory 0 holds the directory \<open>a\<close> (1); \<open>a\<close> holds the file \<open>b\<close>, the directory
  \<open>d\<close> (2) and a name \<open>x\<close> whose listing fails with a backend error; \<open>d\<close> holds the file
  \<open>c\<close>. The world counts the calls of \<open>Dir.Lookup\<close>.
\<close>

definition demo_entries :: "((nat \<times> string) \<times> (nat, nat, nat) result) list" where
  "demo_entries =
     [((0, ''a''), (Some (Dir (Some 1)), None)),
      ((1, ''b''), (Some (File (Some 7)), None)),
      ((1, ''d''), (Some (Dir (Some 2)), None)),
      ((1, ''x''), (None, Some (BackendError 5))),
      ((2, ''c''), (Some (File (Some 8)), None))]"

definition demo_Dir_Lookup :: "(nat, nat, nat, nat) dir_lookup" where
  "demo_Dir_Lookup dir name s =
     (case dir of
        None \<Rightarrow> ((None, Some ENOENT), Suc s)
      | Some d \<Rightarrow>
          (case map_of demo_entries (d, name) of
             Some r \<Rightarrow> (r, Suc s)
           | None \<Rightarrow> ((None, Some ENOENT), Suc s)))"


definition demo_FS :: "(unit, nat, nat) FS" where
  "demo_FS =
     \<lparr>f = \<lparr>Features = \<lparr>DirChangeNotify = None\<rparr>\<rparr>, root = Some 0, noSeek = False,
      noChecksum = False, readOnly = False, noModTime = False, dirCacheTime = 0\<rparr>"

section \<open>Properties of path resolution\<close>

subsection \<open>Cutting a path at its first slash\<close>

lemma IndexRune_absent: "r \<notin> set cs \<Longrightarrow> IndexRune cs r = -1"
  by (induction cs) (auto simp: Let_def)

lemma IndexRune_present:
  "r \<in> set cs \<Longrightarrow> IndexRune cs r = int (length (takeWhile (\<lambda>c. c \<noteq> r) cs))"
  by (induction cs) (auto simp: Let_def)

lemma IndexRune_neg_iff: "IndexRune cs r < 0 \<longleftrightarrow> r \<notin> set cs"
  using IndexRune_absent[of r cs] IndexRune_present[of r cs] by auto

lemma take_IndexRune:
  "r \<in> set cs \<Longrightarrow> take (nat (IndexRune cs r)) cs = takeWhile (\<lambda>c. c \<noteq> r) cs"
  by (induction cs) (auto simp: Let_def IndexRune_neg_iff IndexRune_present nat_add_distrib)

lemma drop_IndexRune:
  "r \<in> set cs \<Longrightarrow> drop (nat (IndexRune cs r + 1)) cs = tl (dropWhile (\<lambda>c. c \<noteq> r) cs)"
  by (induction cs) (auto simp: Let_def IndexRune_neg_iff IndexRune_present nat_add_distrib)

lemma dropWhile_absent: "r \<notin> set cs \<Longrightarrow> dropWhile (\<lambda>c. c \<noteq> r) cs = []"
  by (induction cs) auto

lemma takeWhile_absent: "r \<notin> set cs \<Longrightarrow> takeWhile (\<lambda>c. c \<noteq> r) cs = cs"
  by (induction cs) auto

lemma cut_name:
  "(if IndexRune path (CHR ''/'') < 0 then path
    else take (nat (IndexRune path (CHR ''/''))) path) = first_seg path"
  by (simp add: IndexRune_neg_iff take_IndexRune takeWhile_absent first_seg_def)

lemma cut_rest:
  "(if IndexRune path (CHR ''/'') < 0 then []
    else drop (nat (IndexRune path (CHR ''/'') + 1)) path) = after_seg path"
  by (simp add: IndexRune_neg_iff drop_IndexRune dropWhile_absent after_seg_def)

subsection \<open>The loop resolves the non-empty segments\<close>

lemma split_slash_ne: "split_slash cs \<noteq> []"
  by (induction cs) (auto split: list.splits)

lemma split_slash_cut:
  "split_slash path =
     first_seg path # (if CHR ''/'' \<in> set path then split_slash (after_seg path) else [])"
  by (induction path) (auto simp: first_seg_def after_seg_def split: list.splits)

lemma segments_Nil: "segments [] = []"
  by (simp add: segments_def)

lemma segments_cut:
  "path \<noteq> [] \<Longrightarrow> segments path =
     (if first_seg path = [] then segments (after_seg path)
      else first_seg path # segments (after_seg path))"
proof (cases "CHR ''/'' \<in> set path")
  case True
  then show ?thesis
    by (subst segments_def, subst split_slash_cut) (simp add: segments_def)
next
  case False
  assume "path \<noteq> []"
  with False show ?thesis
    by (subst segments_def, subst split_slash_cut)
       (simp add: segments_def first_seg_def after_seg_def takeWhile_absent dropWhile_absent)
qed

lemma length_after_seg: "path \<noteq> [] \<Longrightarrow> length (after_seg path) < length path"
  unfolding after_seg_def
  by (cases path) (auto simp: less_Suc_eq_le length_dropWhile_le intro: le_trans[OF diff_le_self])

lemma Lookup_loop_step:
  "path \<noteq> [] \<Longrightarrow> Lookup_loop L node path s =
     (if first_seg path = [] then Lookup_loop L node (after_seg path) s
      else (case node of
              Some (Dir dir) \<Rightarrow>
                (case L dir (first_seg path) s of
                   ((node', Some err), s') \<Rightarrow> ((None, Some err), s')
                 | ((node', None), s') \<Rightarrow> Lookup_loop L node' (after_seg path) s')
            | _ \<Rightarrow> ((None, Some ENOENT), s)))"
  by (subst Lookup_loop.simps) (simp only: Let_def cut_name cut_rest if_False)

lemma Lookup_loop_resolve: "Lookup_loop L node path s = resolve L node (segments path) s"
proof (induction "length path" arbitrary: node path s rule: less_induct)
  case less
  show ?case
  proof (cases "path = []")
    case True
    then show ?thesis
      by (simp add: Lookup_loop.simps segments_Nil)
  next
    case False
    note IH = less[OF length_after_seg[OF False]]
    show ?thesis
    proof (cases "first_seg path = []")
      case True
      with False IH show ?thesis
        by (simp add: Lookup_loop_step segments_cut)
    next
      case seg: False
      show ?thesis
      proof (cases node)
        case None
        with False seg show ?thesis
          by (simp add: Lookup_loop_step segments_cut)
      next
        case (Some n)
        show ?thesis
        proof (cases n)
          case (Dir dir)
          with False seg Some IH show ?thesis
            by (simp add: Lookup_loop_step segments_cut split: prod.splits option.splits)
        next
          case (File x)
          with False seg Some show ?thesis
            by (simp add: Lookup_loop_step segments_cut)
        qed
      qed
    qed
  qed
qed

lemma Lookup_resolve:
  "Lookup L fsys path s = resolve L (Some (Dir (root fsys))) (segments path) s"
  by (simp add: Lookup_def Lookup_loop_resolve)

subsection \<open>Segments of composed paths\<close>

lemma split_slash_append:
  "split_slash (p @ CHR ''/'' # q) = split_slash p @ split_slash q"
  by (induction p) (auto simp: split_slash_ne split: list.splits)

lemma segments_append: "segments (p @ CHR ''/'' # q) = segments p @ segments q"
  by (simp add: segments_def split_slash_append)

lemma segments_leading: "segments (CHR ''/'' # q) = segments q"
  by (simp add: segments_def)

lemma segments_trailing: "segments (p @ [CHR ''/'']) = segments p"
  using segments_append[of p "[]"] by (simp add: segments_Nil)

lemma split_slash_free: "CHR ''/'' \<notin> set seg \<Longrightarrow> split_slash seg = [seg]"
  by (induction seg) auto

lemma segments_free: "seg \<noteq> [] \<Longrightarrow> CHR ''/'' \<notin> set seg \<Longrightarrow> segments seg = [seg]"
  by (simp add: segments_def split_slash_free)

lemma segments_boundary:
  "p = [] \<or> last p = CHR ''/'' \<Longrightarrow> segments (p @ q) = segments p @ segments q"
proof (cases "p = []")
  case True
  then show ?thesis by (simp add: segments_Nil)
next
  case False
  assume "p = [] \<or> last p = CHR ''/''"
  with False have p: "p = butlast p @ [CHR ''/'']"
    by (metis append_butlast_last_id)
  have "segments (p @ q) = segments (butlast p @ CHR ''/'' # q)"
    by (subst p) simp
  also have "\<dots> = segments (butlast p) @ segments q"
    by (rule segments_append)
  also have "segments (butlast p) = segments p"
    by (subst (2) p) (simp add: segments_trailing)
  finally show ?thesis .
qed

lemma segments_join:
  "\<forall>seg\<in>set segs. seg \<noteq> [] \<and> CHR ''/'' \<notin> set seg \<Longrightarrow> segments (join_slash segs) = segs"
  by (induction segs rule: join_slash.induct)
     (simp_all add: segments_Nil segments_free segments_append)

lemma segments_empty_iff: "segments rest = [] \<longleftrightarrow> (\<forall>c\<in>set rest. c = CHR ''/'')"
proof (induction rest)
  case Nil
  then show ?case by (simp add: segments_Nil)
next
  case (Cons c cs)
  show ?case
  proof (cases "c = CHR ''/''")
    case True
    with Cons show ?thesis by (simp add: segments_leading)
  next
    case False
    have "split_slash (c # cs) = (c # hd (split_slash cs)) # tl (split_slash cs)"
      using False split_slash_ne[of cs] by (cases "split_slash cs") auto
    with False show ?thesis by (auto simp: segments_def)
  qed
qed

subsection \<open>Resolution step by step\<close>

lemma resolve_error_nil:
  "resolve L node segs s = ((n, Some e), s') \<Longrightarrow> n = None"
  by (induction L node segs s rule: resolve.induct)
     (auto split: prod.splits option.splits)

lemma resolve_append:
  "resolve L node (xs @ ys) s =
     (case resolve L node xs s of
        ((n, None), s') \<Rightarrow> resolve L n ys s'
      | ((n, Some e), s') \<Rightarrow> ((n, Some e), s'))"
  by (induction L node xs s rule: resolve.induct)
     (auto split: prod.splits option.splits)

lemma resolve_sequential:
  "sequential_Dir_Lookup L dir segs s = Some ((node, err), s') \<Longrightarrow>
   resolve L (Some (Dir dir)) segs s = ((if err = None then node else None, err), s')"
proof (induction L dir segs s rule: sequential_Dir_Lookup.induct)
  case (1 L dir s)
  then show ?case by simp
next
  case (2 L dir seg s)
  then show ?case by (auto split: prod.splits option.splits)
next
  case (3 L dir seg v va s)
  obtain n e s1 where L: "L dir seg s = ((n, e), s1)"
    by (metis prod.collapse)
  show ?case
  proof (cases e)
    case (Some err')
    with L "3.prems" show ?thesis by auto
  next
    case None
    with L "3.prems" obtain dir' where n: "n = Some (Dir dir')"
      by (auto split: option.splits Node.splits)
    with L None "3.prems" have "sequential_Dir_Lookup L dir' (v # va) s1 = Some ((node, err), s')"
      by simp
    with "3.IH"[OF L[symmetric] refl None n refl] L None n show ?thesis
      by simp
  qed
qed

lemma contract_nil_on_error:
  "Dir_Lookup_contract L \<Longrightarrow> L dir name s = ((node, Some err), s') \<Longrightarrow> node = None"
  unfolding Dir_Lookup_contract_def by (metis fst_conv option.distinct(1) snd_conv)

lemma contract_node_on_success:
  "Dir_Lookup_contract L \<Longrightarrow> L dir name s = ((node, None), s') \<Longrightarrow> node \<noteq> None"
  unfolding Dir_Lookup_contract_def by (metis fst_conv snd_conv)

lemma sequential_error_nil:
  "Dir_Lookup_contract L \<Longrightarrow> sequential_Dir_Lookup L dir segs s = Some ((node, Some err), s') \<Longrightarrow>
   node = None"
proof (induction L dir segs s rule: sequential_Dir_Lookup.induct)
  case (1 L dir s)
  then show ?case by simp
next
  case (2 L dir seg s)
  then show ?case by (auto dest: contract_nil_on_error)
next
  case (3 L dir seg v va s)
  obtain n e s1 where L: "L dir seg s = ((n, e), s1)"
    by (metis prod.collapse)
  show ?case
  proof (cases e)
    case (Some err')
    with L "3.prems" show ?thesis by (auto dest: contract_nil_on_error)
  next
    case None
    with L "3.prems" obtain dir' where n: "n = Some (Dir dir')"
      by (auto split: option.splits Node.splits)
    with L None "3.prems" have "sequential_Dir_Lookup L dir' (v # va) s1 = Some ((node, Some err), s')"
      by simp
    with "3.IH"[OF L[symmetric] refl None n refl] "3.prems"(1) show ?thesis
      by simp
  qed
qed

lemma resolve_success_node:
  "Dir_Lookup_contract L \<Longrightarrow> node \<noteq> None \<Longrightarrow> resolve L node segs s = ((n, None), s') \<Longrightarrow>
   n \<noteq> None"
proof (induction L node segs s rule: resolve.induct)
  case (1 L node s)
  then show ?case by simp
next
  case (2 L dir seg segs s)
  then show ?case
    by (auto split: prod.splits option.splits dest: contract_node_on_success)
qed simp_all

lemma resolve_traced:
  "fst (resolve (traced L) node segs (s, calls)) = fst (resolve L node segs s) \<and>
   fst (snd (resolve (traced L) node segs (s, calls))) = snd (resolve L node segs s)"
proof (induction segs arbitrary: node s calls)
  case Nil
  then show ?case by simp
next
  case (Cons seg segs)
  show ?case
  proof (cases node)
    case None
    then show ?thesis by simp
  next
    case (Some n)
    show ?thesis
    proof (cases n)
      case (Dir dir)
      obtain n' e s' where L: "L dir seg s = ((n', e), s')"
        by (metis prod.collapse)
      show ?thesis
      proof (cases e)
        case None
        with Some Dir L Cons.IH[of n' s' "calls @ [(dir, seg)]"] show ?thesis
          by (simp add: traced_def)
      next
        case (Some err)
        with \<open>node = Some n\<close> Dir L show ?thesis
          by (simp add: traced_def)
      qed
    next
      case (File x)
      with Some show ?thesis by simp
    qed
  qed
qed

lemma segments_failing:
  assumes "pre = [] \<or> last pre = CHR ''/''" and "name \<noteq> []" and "CHR ''/'' \<notin> set name"
    and "rest = [] \<or> hd rest = CHR ''/''"
  shows "segments (pre @ name @ rest) = segments pre @ name # segments (tl rest)"
proof -
  have "segments (name @ rest) = name # segments (tl rest)"
  proof (cases rest)
    case Nil
    with assms show ?thesis by (simp add: segments_free segments_Nil)
  next
    case (Cons c cs)
    with assms have "rest = CHR ''/'' # cs" by simp
    with assms show ?thesis by (simp add: segments_append segments_free)
  qed
  with assms(1) show ?thesis by (simp add: segments_boundary)
qed

lemma Lookup_first_failure:
  assumes "pre = [] \<or> last pre = CHR ''/''"
    and "Lookup L fsys pre s = ((Some (Dir dir), None), s1)"
    and "name \<noteq> []" and "CHR ''/'' \<notin> set name"
    and "rest = [] \<or> hd rest = CHR ''/''"
    and "L dir name s1 = ((node, Some err), s2)"
  shows "Lookup L fsys (pre @ name @ rest) s = ((None, Some err), s2)"
  using assms(2,6)
  by (simp add: Lookup_resolve segments_failing[OF assms(1,3,4,5)] resolve_append)

section \<open>Path resolution: the claims\<close>

lemma demo_contract: "Dir_Lookup_contract demo_Dir_Lookup"
  unfolding Dir_Lookup_contract_def demo_Dir_Lookup_def demo_entries_def
  by (auto split: option.splits)

text \<open>
  Claim C1. For a path made of one or more non-empty segments separated by single
  slashes, with no leading, trailing or doubled slash, \<open>FS.Lookup\<close> returns what a caller
  gets who starts from the root \<open>Dir\<close> and calls \<open>Dir.Lookup\<close> on each segment in order:
  the same error, the same node when there is no error, and the same world afterwards.
  When the chain ends with an error \<open>FS.Lookup\<close> returns a nil node, which is the node of
  the failed call for a \<open>Dir.Lookup\<close> that keeps its contract; for such a \<open>Dir.Lookup\<close>
  both results are equal.
\<close>

theorem Lookup_regular_path_sequential:
  assumes "segs \<noteq> []"
    and "\<forall>seg\<in>set segs. seg \<noteq> [] \<and> CHR ''/'' \<notin> set seg"
    and "sequential_Dir_Lookup L (root fsys) segs s = Some ((node, err), s')"
  shows "Lookup L fsys (join_slash segs) s = ((if err = None then node else None, err), s') \<and>
         (Dir_Lookup_contract L \<longrightarrow> Lookup L fsys (join_slash segs) s = ((node, err), s'))"
proof -
  have res: "Lookup L fsys (join_slash segs) s = ((if err = None then node else None, err), s')"
    using assms(2,3) by (simp add: Lookup_resolve segments_join resolve_sequential)
  moreover have "Lookup L fsys (join_slash segs) s = ((node, err), s')" if "Dir_Lookup_contract L"
  proof (cases err)
    case None
    with res show ?thesis by simp
  next
    case (Some e)
    with sequential_error_nil[OF that] assms(3) have "node = None" by blast
    with res show ?thesis by simp
  qed
  ultimately show ?thesis by blast
qed

theorem Lookup_regular_path_sequential_witness:
  "[''a'', ''d'', ''c''] \<noteq> [] \<and>
   CHR ''/'' \<notin> set ''a'' \<and> CHR ''/'' \<notin> set ''d'' \<and> CHR ''/'' \<notin> set ''c'' \<and>
   sequential_Dir_Lookup demo_Dir_Lookup (root demo_FS) [''a'', ''d'', ''c''] 0 =
     Some ((Some (File (Some 8)), None), 3) \<and>
   Dir_Lookup_contract demo_Dir_Lookup \<and>
   Lookup demo_Dir_Lookup demo_FS ''a/d/c'' 0 = ((Some (File (Some 8)), None), 3)"
proof -
  have seq: "sequential_Dir_Lookup demo_Dir_Lookup (root demo_FS) [''a'', ''d'', ''c''] 0 =
     Some ((Some (File (Some 8)), None), 3)"
    by (simp add: demo_Dir_Lookup_def demo_entries_def demo_FS_def)
  have reg: "\<forall>seg\<in>set [''a'', ''d'', ''c'']. seg \<noteq> [] \<and> CHR ''/'' \<notin> set seg"
    by simp
  from Lookup_regular_path_sequential[OF _ reg seq] demo_contract seq reg show ?thesis
    by simp
qed

text \<open>
  Claim C2. When the resolution of a path \<open>p\<close> reaches a file and the path goes on with a
  slash and at least one more non-empty segment (a file at \<open>a/b\<close>, the query \<open>a/b/c\<close>),
  \<open>FS.Lookup\<close> returns a nil node and the error \<open>ENOENT\<close>, and leaves the world as the
  call that found the file left it.
\<close>

theorem Lookup_through_file_ENOENT:
  assumes "Lookup L fsys p s = ((Some (File file), None), s1)"
    and "\<exists>c\<in>set rest. c \<noteq> CHR ''/''"
  shows "Lookup L fsys (p @ CHR ''/'' # rest) s = ((None, Some ENOENT), s1)"
proof -
  from assms(2) obtain seg segs where "segments rest = seg # segs"
    using segments_empty_iff[of rest] by (cases "segments rest") auto
  with assms(1) show ?thesis
    by (simp add: Lookup_resolve segments_append resolve_append)
qed

theorem Lookup_through_file_ENOENT_witness:
  "Lookup demo_Dir_Lookup demo_FS ''a/b'' 0 = ((Some (File (Some 7)), None), 2) \<and>
   (\<exists>c. c \<in> set ''c'' \<and> c \<noteq> CHR ''/'') \<and>
   Lookup demo_Dir_Lookup demo_FS ''a/b/c'' 0 = ((None, Some ENOENT), 2)"
proof -
  have found: "Lookup demo_Dir_Lookup demo_FS ''a/b'' 0 = ((Some (File (Some 7)), None), 2)"
    by (simp add: Lookup_resolve segments_def demo_Dir_Lookup_def demo_entries_def demo_FS_def)
  have more: "\<exists>c\<in>set ''c''. c \<noteq> CHR ''/''"
    by simp
  from Lookup_through_file_ENOENT[OF found more] found show ?thesis
    by simp
qed

text \<open>
  Claim C4. \<open>FS.Lookup\<close> of the empty path returns the root node and no error. For every
  path it resolves the non-empty segments of the path split on the slash, so two paths
  with the same non-empty segments have the same result; in particular a leading, a
  trailing or a doubled slash changes nothing (\<open>a/b\<close> and \<open>/a//b/\<close>).
\<close>

theorem Lookup_skips_empty_segments:
  "Lookup L fsys [] s = ((Some (Dir (root fsys)), None), s) \<and>
   Lookup L fsys path s =
     resolve L (Some (Dir (root fsys))) (filter (\<lambda>seg. seg \<noteq> []) (split_slash path)) s \<and>
   (segments p = segments q \<longrightarrow> Lookup L fsys p s = Lookup L fsys q s) \<and>
   Lookup L fsys (CHR ''/'' # path) s = Lookup L fsys path s \<and>
   Lookup L fsys (path @ [CHR ''/'']) s = Lookup L fsys path s \<and>
   Lookup L fsys (p @ CHR ''/'' # CHR ''/'' # q) s = Lookup L fsys (p @ CHR ''/'' # q) s"
proof -
  have "Lookup L fsys [] s = ((Some (Dir (root fsys)), None), s)"
    by (simp add: Lookup_def Lookup_loop.simps)
  moreover have "Lookup L fsys path s =
     resolve L (Some (Dir (root fsys))) (filter (\<lambda>seg. seg \<noteq> []) (split_slash path)) s"
    by (simp add: Lookup_resolve segments_def)
  moreover have "Lookup L fsys (p @ CHR ''/'' # CHR ''/'' # q) s = Lookup L fsys (p @ CHR ''/'' # q) s"
    by (simp add: Lookup_resolve segments_append segments_leading)
  ultimately show ?thesis
    by (simp add: Lookup_resolve segments_leading segments_trailing)
qed

theorem Lookup_skips_empty_segments_witness:
  "segments ''a/b'' = segments ''/a//b/'' \<and>
   Lookup demo_Dir_Lookup demo_FS ''a/b'' 0 = Lookup demo_Dir_Lookup demo_FS ''/a//b/'' 0 \<and>
   Lookup demo_Dir_Lookup demo_FS ''/a//b/'' 0 = ((Some (File (Some 7)), None), 2)"
proof -
  have same: "segments ''a/b'' = segments ''/a//b/''"
    by (simp add: segments_def)
  have "Lookup demo_Dir_Lookup demo_FS ''/a//b/'' 0 =
     resolve demo_Dir_Lookup (Some (Dir (root demo_FS)))
       (filter (\<lambda>seg. seg \<noteq> []) (split_slash ''/a//b/'')) 0"
    using Lookup_skips_empty_segments[of demo_Dir_Lookup demo_FS 0 "''/a//b/''"] by blast
  then have val: "Lookup demo_Dir_Lookup demo_FS ''/a//b/'' 0 = ((Some (File (Some 7)), None), 2)"
    by (simp add: demo_Dir_Lookup_def demo_entries_def demo_FS_def)
  from Lookup_skips_empty_segments[of demo_Dir_Lookup demo_FS 0 "''/a//b/''" "''a/b''" "''/a//b/''"]
    same val show ?thesis by simp
qed

text \<open>
  Claim C5. Let the path be \<open>pre @ name @ rest\<close>, where \<open>pre\<close> is empty or ends with a
  slash, \<open>name\<close> is a segment, and \<open>rest\<close> is empty or starts with a slash. When resolving
  \<open>pre\<close> reaches the directory \<open>dir\<close> and \<open>Dir.Lookup\<close> of \<open>name\<close> in \<open>dir\<close> fails with
  \<open>err\<close>, then \<open>FS.Lookup\<close> returns a nil node and that very \<open>err\<close>, the world is the one
  the failed call left, and the calls of \<open>Dir.Lookup\<close> performed are those that resolve
  \<open>pre\<close> followed by the failed call: no segment of \<open>rest\<close> is looked up.
\<close>

theorem Lookup_first_error_verbatim:
  assumes "pre = [] \<or> last pre = CHR ''/''"
    and "Lookup L fsys pre s = ((Some (Dir dir), None), s1)"
    and "name \<noteq> []" and "CHR ''/'' \<notin> set name"
    and "rest = [] \<or> hd rest = CHR ''/''"
    and "L dir name s1 = ((node, Some err), s2)"
  shows "Lookup L fsys (pre @ name @ rest) s = ((None, Some err), s2) \<and>
         snd (snd (Lookup (traced L) fsys (pre @ name @ rest) (s, calls))) =
           snd (snd (Lookup (traced L) fsys pre (s, calls))) @ [(dir, name)]"
proof -
  obtain r t cs where pre: "Lookup (traced L) fsys pre (s, calls) = (r, (t, cs))"
    by (metis prod.collapse)
  with resolve_traced[of L "Some (Dir (root fsys))" "segments pre" s calls] assms(2)
  have "r = (Some (Dir dir), None)" and "t = s1"
    by (simp_all add: Lookup_resolve)
  with pre have pre': "Lookup (traced L) fsys pre (s, calls) = ((Some (Dir dir), None), (s1, cs))"
    by simp
  from assms(6) have "traced L dir name (s1, cs) = ((node, Some err), (s2, cs @ [(dir, name)]))"
    by (simp add: traced_def)
  from Lookup_first_failure[OF assms(1) pre' assms(3,4,5) this] pre'
  have "snd (snd (Lookup (traced L) fsys (pre @ name @ rest) (s, calls))) =
          snd (snd (Lookup (traced L) fsys pre (s, calls))) @ [(dir, name)]"
    by simp
  with Lookup_first_failure[OF assms] show ?thesis
    by simp
qed

theorem Lookup_first_error_verbatim_witness:
  "last ''a/'' = CHR ''/'' \<and>
   Lookup demo_Dir_Lookup demo_FS ''a/'' 0 = ((Some (Dir (Some 1)), None), 1) \<and>
   CHR ''/'' \<notin> set ''x'' \<and> hd ''/c'' = CHR ''/'' \<and>
   demo_Dir_Lookup (Some 1) ''x'' 1 = ((None, Some (BackendError 5)), 2) \<and>
   Lookup demo_Dir_Lookup demo_FS ''a/x/c'' 0 = ((None, Some (BackendError 5)), 2) \<and>
   snd (snd (Lookup (traced demo_Dir_Lookup) demo_FS ''a/x/c'' (0, []))) =
     [(Some 0, ''a''), (Some 1, ''x'')]"
proof -
  have dir: "Lookup demo_Dir_Lookup demo_FS ''a/'' 0 = ((Some (Dir (Some 1)), None), 1)"
    by (simp add: Lookup_resolve segments_def demo_Dir_Lookup_def demo_entries_def demo_FS_def)
  have fails: "demo_Dir_Lookup (Some 1) ''x'' 1 = ((None, Some (BackendError 5)), 2)"
    by (simp add: demo_Dir_Lookup_def demo_entries_def)
  have calls: "snd (snd (Lookup (traced demo_Dir_Lookup) demo_FS ''a/'' (0, []))) = [(Some 0, ''a'')]"
    by (simp add: Lookup_resolve segments_def traced_def demo_Dir_Lookup_def demo_entries_def
        demo_FS_def)
  from Lookup_first_error_verbatim[OF _ dir _ _ _ fails, of "''/c''" "[]"] dir fails calls
  show ?thesis by simp
qed

text \<open>
  Claim C10. \<open>FS.Lookup\<close> returns a node or an error, never both and never neither:
  with a non-nil error the node is nil, and with a nil error the node is non-nil. The
  second half rests on \<open>Dir.Lookup\<close> returning a non-nil node whenever it returns no
  error, since the last node comes from it.
\<close>

theorem Lookup_node_or_error:
  assumes "Lookup L fsys path s = ((node, err), s')"
  shows "(err \<noteq> None \<longrightarrow> node = None) \<and>
         (Dir_Lookup_contract L \<longrightarrow> err = None \<longrightarrow> node \<noteq> None)"
proof -
  from assms have res: "resolve L (Some (Dir (root fsys))) (segments path) s = ((node, err), s')"
    by (simp add: Lookup_resolve)
  then have "err \<noteq> None \<longrightarrow> node = None"
    by (auto dest: resolve_error_nil)
  moreover have "node \<noteq> None" if "Dir_Lookup_contract L" and "err = None"
    using resolve_success_node[OF that(1), of "Some (Dir (root fsys))" "segments path" s node s']
      res that(2) by simp
  ultimately show ?thesis by blast
qed

theorem Lookup_node_or_error_witness:
  "Lookup demo_Dir_Lookup demo_FS ''a/d'' 0 = ((Some (Dir (Some 2)), None), 2) \<and>
   Dir_Lookup_contract demo_Dir_Lookup \<and>
   Lookup demo_Dir_Lookup demo_FS ''a/q'' 0 = ((None, Some ENOENT), 2)"
proof -
  have ok: "Lookup demo_Dir_Lookup demo_FS ''a/d'' 0 = ((Some (Dir (Some 2)), None), 2)"
    by (simp add: Lookup_resolve segments_def demo_Dir_Lookup_def demo_entries_def demo_FS_def)
  have bad: "Lookup demo_Dir_Lookup demo_FS ''a/q'' 0 = ((None, Some ENOENT), 2)"
    by (simp add: Lookup_resolve segments_def demo_Dir_Lookup_def demo_entries_def demo_FS_def)
  from Lookup_node_or_error[OF ok] Lookup_node_or_error[OF bad] demo_contract ok bad
  show ?thesis by simp
qed

section \<open>Inode numbers: the claim\<close>

lemma NewInode_calls_values:
  "NewInode_calls n c = (map (\<lambda>k. c + of_nat (Suc k)) [0..<n], c + of_nat n)"
proof (induction n arbitrary: c)
  case 0
  then show ?case by simp
next
  case (Suc n)
  have "NewInode_calls (Suc n) c =
          ((c + 1) # map (\<lambda>k. c + 1 + of_nat (Suc k)) [0..<n], c + 1 + of_nat n)"
    by (simp add: NewInode_def Suc[of "c + 1"])
  also have "\<dots> = (map (\<lambda>k. c + of_nat (Suc k)) [0..<Suc n], c + of_nat (Suc n))"
    by (simp only: map_upt_Suc) (simp add: algebra_simps)
  finally show ?case .
qed

lemma length_NewInode_calls: "length (fst (NewInode_calls n c)) = n"
  by (simp add: NewInode_calls_values)

lemma nth_NewInode_calls: "k < n \<Longrightarrow> fst (NewInode_calls n c) ! k = c + of_nat (Suc k)"
  by (simp add: NewInode_calls_values)

lemma unat_NewInode_calls:
  assumes "n < 2 ^ 64"
  shows "map unat (fst (NewInode_calls n 0)) = [1..<Suc n]"
proof -
  have "unat (of_nat (Suc k) :: uint64) = Suc k" if "k < n" for k
  proof -
    from that assms have "Suc k < 2 ^ LENGTH(64)" by simp
    then show ?thesis by (simp only: unat_of_nat mod_less)
  qed
  then have "map (\<lambda>k. unat (of_nat (Suc k) :: uint64)) [0..<n] = map Suc [0..<n]"
    by (intro map_cong) auto
  then show ?thesis
    by (simp add: NewInode_calls_values comp_def map_Suc_upt del: upt_Suc)
qed

lemma sorted_wrt_unat: "sorted_wrt (<) (map unat ws) \<Longrightarrow> sorted_wrt (<) (ws :: uint64 list)"
  by (induction ws) (auto simp: word_less_nat_alt)

lemma distinct_unat: "distinct (map unat ws) \<Longrightarrow> distinct (ws :: uint64 list)"
  by (simp add: distinct_map)

text \<open>
  Claim C3, amended. From the start of the process (counter 0), as long as fewer than
  \<open>2 ^ 64\<close> calls of \<open>NewInode\<close> have been made, the values returned are 1, 2, ..., \<open>n\<close> in
  this order: strictly increasing, pairwise distinct, the first one 1, none of them 0,
  and together the run from 1 to \<open>n\<close> with no gap.
\<close>

theorem NewInode_calls_below_wrap:
  assumes "n < 2 ^ 64"
  shows "map unat (fst (NewInode_calls n 0)) = [1..<Suc n] \<and>
         sorted_wrt (<) (fst (NewInode_calls n 0)) \<and>
         distinct (fst (NewInode_calls n 0)) \<and>
         0 \<notin> set (fst (NewInode_calls n 0)) \<and>
         (0 < n \<longrightarrow> hd (fst (NewInode_calls n 0)) = 1) \<and>
         unat ` set (fst (NewInode_calls n 0)) = {1..n}"
proof -
  let ?vs = "fst (NewInode_calls n 0)"
  have u: "map unat ?vs = [1..<Suc n]"
    by (rule unat_NewInode_calls[OF assms])
  have "sorted_wrt (<) (map unat ?vs)"
    unfolding u by (simp del: upt_Suc)
  then have s: "sorted_wrt (<) ?vs"
    by (rule sorted_wrt_unat)
  have "distinct (map unat ?vs)"
    unfolding u by (simp del: upt_Suc)
  then have d: "distinct ?vs"
    by (rule distinct_unat)
  have "set (map unat ?vs) = {1..n}"
    unfolding u by (auto simp del: upt_Suc)
  then have i: "unat ` set ?vs = {1..n}"
    by simp
  have z: "0 \<notin> set ?vs"
  proof
    assume "0 \<in> set ?vs"
    then have "unat (0 :: uint64) \<in> unat ` set ?vs" by (rule imageI)
    with i show False by simp
  qed
  have h: "hd ?vs = 1" if "0 < n"
  proof -
    from that have "?vs \<noteq> []" using length_NewInode_calls[of n 0] by auto
    then have "hd ?vs = ?vs ! 0" by (simp add: hd_conv_nth)
    with that show ?thesis by (simp add: nth_NewInode_calls)
  qed
  from u s d z h i show ?thesis by blast
qed

theorem NewInode_calls_below_wrap_witness:
  "(3 :: nat) < 2 ^ 64 \<and> fst (NewInode_calls 3 0) = [1, 2, 3] \<and>
   map unat (fst (NewInode_calls 3 0)) = [1..<Suc 3] \<and>
   sorted_wrt (<) (fst (NewInode_calls 3 0)) \<and> 0 \<notin> set (fst (NewInode_calls 3 0))"
proof -
  have small: "(3 :: nat) < 2 ^ 64" by simp
  have vals: "fst (NewInode_calls 3 0) = [1, 2, 3]"
    by (simp add: numeral_3_eq_3 NewInode_def)
  from NewInode_calls_below_wrap[OF small] small vals show ?thesis
    by blast
qed

lemma sorted_wrt_hd_last:
  "sorted_wrt (<) (xs :: uint64 list) \<Longrightarrow> 2 \<le> length xs \<Longrightarrow> hd xs < last xs"
proof -
  assume s: "sorted_wrt (<) xs" and l: "2 \<le> length xs"
  from l have "(0::nat) < length xs - 1" and "length xs - 1 < length xs"
    by simp_all
  with s have "xs ! 0 < xs ! (length xs - 1)"
    by (rule sorted_wrt_nth_less)
  with l show ?thesis
    by (cases xs) (auto simp: last_conv_nth)
qed

lemma last_NewInode_calls: "0 < n \<Longrightarrow> last (fst (NewInode_calls n 0)) = of_nat n"
proof -
  assume n: "0 < n"
  then have "fst (NewInode_calls n 0) \<noteq> []"
    using length_NewInode_calls[of n 0] by auto
  then have "last (fst (NewInode_calls n 0)) = fst (NewInode_calls n 0) ! (n - 1)"
    by (simp add: last_conv_nth length_NewInode_calls)
  with n show ?thesis by (simp add: nth_NewInode_calls)
qed

text \<open>
  Claim C3 as stated, for every sequence of calls, fails at the wrap of the 64-bit
  counter: call number \<open>2 ^ 64\<close> returns 0, so 0 is returned and the values do not
  increase.
\<close>

theorem NewInode_wraps_to_zero:
  "last (fst (NewInode_calls (2 ^ 64) 0)) = 0 \<and>
   0 \<in> set (fst (NewInode_calls (2 ^ 64) 0)) \<and>
   \<not> sorted_wrt (<) (fst (NewInode_calls (2 ^ 64) 0))"
proof -
  define N :: nat where "N = 2 ^ 64"
  have pos: "0 < N" and two: "2 \<le> N"
    by (simp_all add: N_def)
  have zero: "(of_nat N :: uint64) = 0"
    by (simp add: N_def)
  let ?vs = "fst (NewInode_calls N 0)"
  have l: "last ?vs = 0"
    using last_NewInode_calls[OF pos] zero by simp
  have ne: "?vs \<noteq> []"
    using length_NewInode_calls[of N 0] pos by auto
  with l have m: "0 \<in> set ?vs"
    by (metis last_in_set)
  have "\<not> sorted_wrt (<) ?vs"
  proof
    assume "sorted_wrt (<) ?vs"
    moreover from two have "2 \<le> length ?vs"
      by (simp only: length_NewInode_calls)
    ultimately have "hd ?vs < last ?vs"
      by (rule sorted_wrt_hd_last)
    with l show False by simp
  qed
  with l m show ?thesis
    unfolding N_def by blast
qed

section \<open>The root, the statistics stub and change notification: the claims\<close>

lemma PollChanges_calls_noop:
  "DirChangeNotify (Features (f fsys)) = None \<Longrightarrow>
   PollChanges_calls ForgetPath fsys intervals s = (fsys, s)"
  by (induction intervals) (simp_all add: PollChanges_def)

text \<open>
  Claim C7. When the backend has no \<open>DirChangeNotify\<close> feature (the field is nil),
  \<open>PollChanges\<close> returns the \<open>FS\<close> it was given and leaves the world as it is, for every
  poll interval; so do two calls in a row, and any number of calls.
\<close>

theorem PollChanges_without_capability:
  assumes "DirChangeNotify (Features (f fsys)) = None"
  shows "PollChanges ForgetPath fsys pollInterval s = (fsys, s) \<and>
         PollChanges_calls ForgetPath fsys [pollInterval, pollInterval'] s = (fsys, s) \<and>
         PollChanges_calls ForgetPath fsys intervals s = (fsys, s)"
  using assms PollChanges_calls_noop[OF assms]
  by (simp add: PollChanges_def)

theorem PollChanges_without_capability_witness:
  "DirChangeNotify (Features (f demo_FS)) = None \<and>
   PollChanges (\<lambda>dir. ()) demo_FS 60 (5::nat) = (demo_FS, 5) \<and>
   PollChanges_calls (\<lambda>dir. ()) demo_FS [60, 30] (5::nat) = (demo_FS, 5)"
proof -
  have none: "DirChangeNotify (Features (f demo_FS)) = None"
    by (simp add: demo_FS_def)
  from PollChanges_without_capability[OF none, where ForgetPath = "\<lambda>dir. ()"
      and pollInterval = 60 and pollInterval' = 30 and s = "5::nat" and intervals = "[60, 30]"] none
  show ?thesis by blast
qed

text \<open>
  Claim C8. \<open>Root\<close> returns the field \<open>root\<close> and a nil error, for every \<open>FS\<close>. For the
  \<open>FS\<close> that \<open>NewFS\<close> builds, the root returned is the directory \<open>newDir\<close> created for
  it.
\<close>

theorem Root_never_fails:
  "Root fsys = (root fsys, None) \<and>
   Root (fst (NewFS time_Now fs_NewDir newDir ForgetPath g backend s)) =
     (fst (newDir ((fst (NewFS time_Now fs_NewDir newDir ForgetPath g backend s))\<lparr>root := None\<rparr>)
            backend None (fs_NewDir [] (time_Now s)) s), None)"
  by (simp add: Root_def NewFS_def PollChanges_def Let_def split: prod.splits option.splits)

text \<open>
  Claim C9. \<open>Statfs\<close> returns nil for every \<open>FS\<close> and leaves the world as it is: it computes
  nothing.
\<close>

theorem Statfs_noop: "Statfs fsys s = (None, s)"
  by (simp add: Statfs_def)

section \<open>The ordering of Nodes: the claim\<close>












end
